theory Spec2Isabelle
  imports Main
begin

section \<open>The event bus of \<open>src/base/events.js\<close>\<close>

text \<open>
  The file defines one class, \<open>Events\<close>, which extends the \<open>EventEmitter\<close> of the
  \<open>events\<close> module with five methods: \<open>on\<close>, \<open>off\<close>, \<open>trigger\<close>, \<open>triggerThen\<close> and
  \<open>once\<close>. Each method is a few lines over three libraries: the emitter itself,
  lodash (\<open>words\<close>, \<open>each\<close>, \<open>map\<close>, \<open>flatten\<close>, \<open>flow\<close>, \<open>once\<close>) and the promise
  library re-exported by \<open>./promise\<close>. The embedding below has one definition per
  method, with the method's name, and one definition per library function the method
  calls, with the library's name.

  Scope of the embedding.
  \<^item> One bus instance is modelled; the value \<open>BusInstance\<close> stands for it (\<open>this\<close>).
  \<^item> A function value is either a callback supplied by the caller, identified by a
    number, or the wrapper that \<open>once\<close> creates. What a caller's callback does when
    invoked is a parameter (\<open>behaviour\<close>): it returns a value or throws one, and it
    does not call back into the bus.
  \<^item> A JavaScript string is the list of its UTF-16 code units, each a natural number;
    \<open>str\<close> writes the string of a literal of characters below 256.
  \<^item> The emitter's events about itself (\<open>newListener\<close>, \<open>removeListener\<close>, emitted
    by the library when listeners for these two names exist) are not modelled: the
    embedding describes a bus on which nothing is registered under these two names.
    The emitter's treatment of an \<open>error\<close> event without listeners is modelled.
  \<^item> Every invocation of a function value is recorded in the bus's \<open>trace\<close>, with the
    call site that made it. The trace is the observation the theorems are stated on.
  \<^item> \<open>on\<close>, \<open>off\<close> and \<open>once\<close> return the bus itself and cannot throw; their models
    return the new state. \<open>trigger\<close> and \<open>triggerThen\<close> return a result and the new state;
    an exception is the result \<open>Inl\<close>.
\<close>

subsection \<open>Strings\<close>

type_synonym jsstring = "nat list"

definition str :: "string \<Rightarrow> jsstring" where
  "str cs = map of_char cs"

subsection \<open>Values and function values\<close>

datatype val =
    Undefined
  | Null
  | Num int
  | Str jsstring
  | Obj nat
  | BusInstance
  | Error string
  | EmitterError val
  | Fun fn
  | Resolving nat val
  | Rejecting nat val
and fn =
    Callback nat
  | OnceWrapper nat jsstring nat "val option"

text \<open>
  \<open>Error m\<close> is an error object made by the caller's code, with its message;
  \<open>EmitterError v\<close> is the error object the emitter makes for an unhandled \<open>error\<close> event
  whose first argument is \<open>v\<close> (its message differs between versions of the library and
  is not modelled). \<open>Resolving t v\<close> and \<open>Rejecting t e\<close> are asynchronous results: pending when returned,
  settled at tick \<open>t\<close> with the value \<open>v\<close>, or failed at tick \<open>t\<close> with the cause \<open>e\<close>.

  \<open>OnceWrapper w name callback context\<close> is the closure built at lines 128-132: \<open>w\<close>
  identifies the closure (its mutable part lives in the bus state under \<open>w\<close>), and
  \<open>name\<close>, \<open>callback\<close>, \<open>context\<close> are the variables of \<open>once\<close> it captures. The
  property \<open>_callback\<close> set at line 132 is the \<open>callback\<close> component.
\<close>

datatype site = ByEmit jsstring | ByOnce nat | ByTriggerThen

text \<open>
  The three places where a function value is invoked: the emitter's \<open>emit\<close> (for an event
  name), the body of a once-wrapper (line 130), and the mapper of \<open>triggerThen\<close>
  (line 108).
\<close>

record call =
  callee :: fn
  receiver :: val
  arguments :: "val list"
  site :: site

record env =
  behaviour :: "nat \<Rightarrow> val \<Rightarrow> val list \<Rightarrow> val + val"
  toString :: "fn \<Rightarrow> jsstring"

text \<open>
  \<open>behaviour E c this args\<close> is what the caller's callback \<open>c\<close> does when invoked with
  receiver \<open>this\<close> and arguments \<open>args\<close>: \<open>Inr v\<close> returns \<open>v\<close>, \<open>Inl e\<close> throws \<open>e\<close>.
  \<open>toString E f\<close> is the string JavaScript converts the function \<open>f\<close> to when it is used
  as a property key.
\<close>

record bus =
  events :: "jsstring \<Rightarrow> fn list"
  calls_left :: "nat \<Rightarrow> int"
  cached :: "nat \<Rightarrow> val"
  next_once :: nat
  trace :: "call list"

text \<open>
  \<open>events\<close> is the emitter's table \<open>_events\<close>: the listeners of each event name, in
  registration order. \<open>calls_left w\<close> and \<open>cached w\<close> are the variables \<open>n\<close> and \<open>result\<close>
  of the lodash closure \<open>before(2, func)\<close> behind once-wrapper \<open>w\<close>; \<open>next_once\<close> numbers
  the next wrapper.
\<close>

definition new_bus :: bus where
  "new_bus = \<lparr>events = (\<lambda>_. []), calls_left = (\<lambda>_. 2), cached = (\<lambda>_. Undefined),
              next_once = 0, trace = []\<rparr>"

definition calls_since :: "bus \<Rightarrow> bus \<Rightarrow> call list" where
  "calls_since s s' = drop (length (trace s)) (trace s')"

subsection \<open>lodash: \<open>words\<close>\<close>

text \<open>
  lodash 3 (the file builds its own \<open>flatMap\<close> from \<open>flow\<close>, \<open>map\<close> and \<open>flatten\<close> and
  passes a \<open>thisArg\<close> to \<open>map\<close>, which is the lodash 3 interface). Its \<open>words(string)\<close> is
  \<open>string.match(reWords) || []\<close> with the global pattern
  \<^verbatim>\<open>upper+(?=upper lower+)|upper?lower+|upper+|[0-9]+\<close>
  where \<open>upper\<close> is \<open>[A-Z\xc0-\xd6\xd8-\xde]\<close> and \<open>lower\<close> is \<open>[a-z\xdf-\xf6\xf8-\xff]\<close>.
\<close>

definition upper :: "nat \<Rightarrow> bool" where
  "upper n \<longleftrightarrow> (65 \<le> n \<and> n \<le> 90) \<or> (192 \<le> n \<and> n \<le> 214) \<or> (216 \<le> n \<and> n \<le> 222)"

definition lower :: "nat \<Rightarrow> bool" where
  "lower n \<longleftrightarrow> (97 \<le> n \<and> n \<le> 122) \<or> (223 \<le> n \<and> n \<le> 246) \<or> (248 \<le> n \<and> n \<le> 255)"

definition digit :: "nat \<Rightarrow> bool" where
  "digit n \<longleftrightarrow> 48 \<le> n \<and> n \<le> 57"

text \<open>
  The match of the pattern at the start of a string, alternatives in their order. The
  first alternative backtracks from the whole run of upper-case letters to the run
  without its last letter, the only split its lookahead accepts.
\<close>

definition reWords_at :: "jsstring \<Rightarrow> jsstring option" where
  "reWords_at xs =
     (let us = takeWhile upper xs; rest = dropWhile upper xs; ls = takeWhile lower rest in
      if 2 \<le> length us \<and> ls \<noteq> [] then Some (butlast us)
      else if length us \<le> 1 \<and> ls \<noteq> [] then Some (us @ ls)
      else if us \<noteq> [] then Some us
      else if takeWhile digit xs \<noteq> [] then Some (takeWhile digit xs)
      else None)"

function words :: "jsstring \<Rightarrow> jsstring list" where
  "words [] = []"
| "words (c # cs) =
     (case reWords_at (c # cs) of
        None \<Rightarrow> words cs
      | Some tok \<Rightarrow> tok # words (drop (length tok) (c # cs)))"
  by pat_completeness auto
termination
proof (relation "measure length")
  show "wf (measure length)" by simp
next
  fix c :: nat and cs
  show "(cs, c # cs) \<in> measure length" by simp
next
  fix c :: nat and cs tok
  assume m: "reWords_at (c # cs) = Some tok"
  have "2 \<le> length us \<Longrightarrow> butlast us \<noteq> []" for us :: jsstring
    by (cases us rule: rev_cases) auto
  with m have "tok \<noteq> []"
    by (auto simp: reWords_at_def Let_def split: if_splits)
  then show "(drop (length tok) (c # cs), c # cs) \<in> measure length"
    by (cases tok) auto
qed

declare words.simps [simp del]

subsection \<open>The emitter: \<open>on\<close>, \<open>removeAllListeners\<close>, \<open>listeners\<close>\<close>

text \<open>
  \<open>EventEmitter.prototype.on(type, listener)\<close> appends the listener to the list of
  \<open>type\<close>; further arguments (\<open>extra\<close>) are not read. \<open>removeAllListeners()\<close> empties the
  table; \<open>removeAllListeners(type)\<close> removes the entry of \<open>type\<close>, and a second argument
  (\<open>extra\<close>) is not read. \<open>listeners(type)\<close> returns a copy of the list of \<open>type\<close>.
\<close>

definition addListener :: "jsstring \<Rightarrow> fn \<Rightarrow> val list \<Rightarrow> bus \<Rightarrow> bus" where
  "addListener type listener extra s =
     s\<lparr>events := (events s)(type := events s type @ [listener])\<rparr>"

definition removeAllListeners :: "jsstring option \<Rightarrow> fn option \<Rightarrow> bus \<Rightarrow> bus" where
  "removeAllListeners type extra s =
     (case type of
        None \<Rightarrow> s\<lparr>events := (\<lambda>_. [])\<rparr>
      | Some t \<Rightarrow> s\<lparr>events := (events s)(t := [])\<rparr>)"

definition listeners :: "bus \<Rightarrow> jsstring \<Rightarrow> fn list" where
  "listeners s type = events s type"

subsection \<open>\<open>on\<close> (lines 33-38)\<close>

fun add_each :: "jsstring list \<Rightarrow> fn \<Rightarrow> val list \<Rightarrow> bus \<Rightarrow> bus" where
  "add_each [] handler args s = s"
| "add_each (name # ns) handler args s =
     add_each ns handler args (addListener name handler args s)"

definition on :: "jsstring \<Rightarrow> fn \<Rightarrow> val list \<Rightarrow> bus \<Rightarrow> bus" where
  "on nameOrNames handler args s = add_each (words nameOrNames) handler args s"

subsection \<open>\<open>off\<close> (lines 50-63)\<close>

text \<open>
  With no name, \<open>off\<close> calls \<open>removeAllListeners()\<close>, or \<open>removeAllListeners(listener)\<close>
  where the listener stands in the position of the event type. With a name it calls,
  for each word, \<open>removeAllListeners(name)\<close> or \<open>removeAllListeners(name, listener)\<close>;
  the emitter reads the first argument only.
\<close>

fun remove_each :: "jsstring list \<Rightarrow> fn option \<Rightarrow> bus \<Rightarrow> bus" where
  "remove_each [] listener s = s"
| "remove_each (name # ns) listener s =
     remove_each ns listener (removeAllListeners (Some name) listener s)"

definition off :: "env \<Rightarrow> jsstring option \<Rightarrow> fn option \<Rightarrow> bus \<Rightarrow> bus" where
  "off E nameOrNames listener s =
     (case nameOrNames of
        None \<Rightarrow>
          (case listener of
             None \<Rightarrow> removeAllListeners None None s
           | Some l \<Rightarrow> removeAllListeners (Some (toString E l)) None s)
      | Some names \<Rightarrow>
          (case listener of
             None \<Rightarrow> remove_each (words names) None s
           | Some l \<Rightarrow> remove_each (words names) (Some l) s))"

subsection \<open>Invoking a function value\<close>

definition record_call :: "site \<Rightarrow> fn \<Rightarrow> val \<Rightarrow> val list \<Rightarrow> bus \<Rightarrow> bus" where
  "record_call st f this args s =
     s\<lparr>trace := trace s @ [\<lparr>callee = f, receiver = this, arguments = args, site = st\<rparr>]\<rparr>"

text \<open>
  The \<open>arguments\<close> object that the arrow function of line 128 reads is the one of the
  enclosing method \<open>once\<close>: the values \<open>once\<close> was called with.
\<close>

definition once_arguments :: "jsstring \<Rightarrow> nat \<Rightarrow> val option \<Rightarrow> val list" where
  "once_arguments name callback context =
     [Str name, Fun (Callback callback)] @ (case context of None \<Rightarrow> [] | Some c \<Rightarrow> [c])"

text \<open>
  A caller's callback runs its \<open>behaviour\<close>. A once-wrapper is lodash's \<open>before(2, func)\<close>:
  it decrements \<open>n\<close>; while \<open>n\<close> is still positive it runs \<open>func\<close> and keeps the result;
  it returns the kept result. \<open>func\<close> is the arrow function of lines 128-131: it calls
  \<open>this.off(name, once)\<close> and then \<open>callback.apply(this, arguments)\<close>, where \<open>this\<close> is the
  bus. An exception of the callback leaves \<open>n\<close> decremented and the kept result as it was.
\<close>

fun invoke :: "env \<Rightarrow> site \<Rightarrow> fn \<Rightarrow> val \<Rightarrow> val list \<Rightarrow> bus \<Rightarrow> (val + val) \<times> bus" where
  "invoke E st (Callback c) this args s =
     (behaviour E c this args, record_call st (Callback c) this args s)"
| "invoke E st (OnceWrapper w name c ctx) this args s =
     (let s0 = record_call st (OnceWrapper w name c ctx) this args s;
          n = calls_left s0 w - 1;
          s1 = s0\<lparr>calls_left := (calls_left s0)(w := n)\<rparr>
      in if 0 < n then
           (let s2 = off E (Some name) (Some (OnceWrapper w name c ctx)) s1;
                s3 = record_call (ByOnce w) (Callback c) BusInstance (once_arguments name c ctx) s2
            in case behaviour E c BusInstance (once_arguments name c ctx) of
                 Inl e \<Rightarrow> (Inl e, s3)
               | Inr v \<Rightarrow> (Inr v, s3\<lparr>cached := (cached s3)(w := v)\<rparr>))
         else (Inr (cached s1 w), s1))"

subsection \<open>The emitter: \<open>emit\<close>\<close>

text \<open>
  \<open>emit(type, ...args)\<close> throws when \<open>type\<close> is \<open>error\<close> and no listener is registered for
  it: the first argument \<open>er\<close> if it is an error object, and otherwise a new error
  object made for \<open>er\<close> (\<open>undefined\<close> when there is no argument). Otherwise it copies the list of \<open>type\<close> and
  invokes every listener of the copy, in order, with the emitter as receiver. It catches
  nothing. It returns whether there were listeners.
\<close>

fun invoke_each :: "env \<Rightarrow> jsstring \<Rightarrow> fn list \<Rightarrow> val list \<Rightarrow> bus \<Rightarrow> (val + unit) \<times> bus" where
  "invoke_each E type [] args s = (Inr (), s)"
| "invoke_each E type (l # ls) args s =
     (case invoke E (ByEmit type) l BusInstance args s of
        (Inl e, s') \<Rightarrow> (Inl e, s')
      | (Inr v, s') \<Rightarrow> invoke_each E type ls args s')"

definition unhandled :: "val list \<Rightarrow> val" where
  "unhandled args =
     (case args of
        [] \<Rightarrow> EmitterError Undefined
      | Error m # _ \<Rightarrow> Error m
      | er # _ \<Rightarrow> EmitterError er)"

definition emit :: "env \<Rightarrow> jsstring \<Rightarrow> val list \<Rightarrow> bus \<Rightarrow> (val + bool) \<times> bus" where
  "emit E type args s =
     (if type = (str ''error'') \<and> events s (str ''error'') = [] then (Inl (unhandled args), s)
      else if events s type = [] then (Inr False, s)
      else (case invoke_each E type (events s type) args s of
              (Inl e, s') \<Rightarrow> (Inl e, s')
            | (Inr u, s') \<Rightarrow> (Inr True, s')))"

subsection \<open>\<open>trigger\<close> (lines 78-83)\<close>

text \<open>
  The first argument is iterated with \<open>for ... of\<close>: an array gives its elements, a string
  gives its code points, each as a string. A code point is one code unit, or a lead
  surrogate followed by a trail surrogate.
\<close>

definition lead_surrogate :: "nat \<Rightarrow> bool" where
  "lead_surrogate u \<longleftrightarrow> 0xD800 \<le> u \<and> u \<le> 0xDBFF"

definition trail_surrogate :: "nat \<Rightarrow> bool" where
  "trail_surrogate u \<longleftrightarrow> 0xDC00 \<le> u \<and> u \<le> 0xDFFF"

fun code_points :: "jsstring \<Rightarrow> jsstring list" where
  "code_points [] = []"
| "code_points [u] = [[u]]"
| "code_points (u # v # us) =
     (if lead_surrogate u \<and> trail_surrogate v then [u, v] # code_points us
      else [u] # code_points (v # us))"

datatype names = NameList "jsstring list" | NameString jsstring

fun iterate :: "names \<Rightarrow> jsstring list" where
  "iterate (NameList ns) = ns"
| "iterate (NameString s) = code_points s"

fun emit_each :: "env \<Rightarrow> jsstring list \<Rightarrow> val list \<Rightarrow> bus \<Rightarrow> (val + unit) \<times> bus" where
  "emit_each E [] args s = (Inr (), s)"
| "emit_each E (name # ns) args s =
     (case emit E name args s of
        (Inl e, s') \<Rightarrow> (Inl e, s')
      | (Inr b, s') \<Rightarrow> emit_each E ns args s')"

definition trigger :: "env \<Rightarrow> names \<Rightarrow> val list \<Rightarrow> bus \<Rightarrow> (val + val) \<times> bus" where
  "trigger E nameOrNames args s =
     (case emit_each E (iterate nameOrNames) args s of
        (Inl e, s') \<Rightarrow> (Inl e, s')
      | (Inr u, s') \<Rightarrow> (Inr BusInstance, s'))"

subsection \<open>\<open>once\<close> (lines 127-134)\<close>

definition once :: "jsstring \<Rightarrow> nat \<Rightarrow> val option \<Rightarrow> bus \<Rightarrow> bus" where
  "once name callback context s =
     (let w = next_once s;
          s1 = s\<lparr>calls_left := (calls_left s)(w := 2), cached := (cached s)(w := Undefined),
                 next_once := Suc w\<rparr>
      in on name (OnceWrapper w name callback context)
           [case context of None \<Rightarrow> Undefined | Some c \<Rightarrow> c] s1)"

subsection \<open>The promise library: \<open>Promise.map\<close>\<close>

text \<open>
  Modelled from the spec: \<open>Promise.map\<close>, imported from \<open>./promise\<close>, a file of the
  repository that is not among the sources. Section 4.4 of the specification: each
  listener is invoked, and each invocation's result (a plain value, or a pending
  asynchronous result) is collected into one aggregate result; if every result succeeds
  the aggregate succeeds with the sequence of resolved values in invocation order; if a
  listener throws synchronously or its asynchronous result fails, the aggregate fails
  with that failure, the first failure winning. A synchronous throw happens during the
  invocation (tick 0); an asynchronous result fails at its own tick; of two failures at
  the same tick the one invoked earlier is first.
\<close>

datatype aggregate = Fulfilled "val list" | Rejected val

definition succeeds :: "val + val \<Rightarrow> bool" where
  "succeeds r = (case r of Inl e \<Rightarrow> False | Inr (Rejecting t e) \<Rightarrow> False | Inr v \<Rightarrow> True)"

definition resolved :: "val + val \<Rightarrow> val" where
  "resolved r = (case r of Inl e \<Rightarrow> Undefined | Inr (Resolving t v) \<Rightarrow> v | Inr v \<Rightarrow> v)"

definition failure :: "val + val \<Rightarrow> (nat \<times> val) option" where
  "failure r =
     (case r of Inl e \<Rightarrow> Some (0, e) | Inr (Rejecting t e) \<Rightarrow> Some (t, e) | Inr v \<Rightarrow> None)"

fun first_failure :: "(val + val) list \<Rightarrow> (nat \<times> val) option" where
  "first_failure [] = None"
| "first_failure (r # rs) =
     (case failure r of
        None \<Rightarrow> first_failure rs
      | Some (t, e) \<Rightarrow>
          (case first_failure rs of
             None \<Rightarrow> Some (t, e)
           | Some (t', e') \<Rightarrow> if t' < t then Some (t', e') else Some (t, e)))"

definition settle :: "(val + val) list \<Rightarrow> aggregate" where
  "settle rs =
     (case first_failure rs of
        None \<Rightarrow> Fulfilled (map resolved rs)
      | Some (t, e) \<Rightarrow> Rejected e)"

fun map_each :: "('a \<Rightarrow> bus \<Rightarrow> (val + val) \<times> bus) \<Rightarrow> 'a list \<Rightarrow> bus \<Rightarrow> (val + val) list \<times> bus" where
  "map_each mapper [] s = ([], s)"
| "map_each mapper (x # xs) s =
     (case mapper x s of
        (r, s1) \<Rightarrow> (case map_each mapper xs s1 of (rs, s2) \<Rightarrow> (r # rs, s2)))"

text \<open>
  Modelled from the spec: \<open>Promise.map(items, mapper)\<close> calls the mapper on every item, in
  order, collects what each call returns or throws, and settles as described above.
\<close>

definition Promise_map :: "'a list \<Rightarrow> ('a \<Rightarrow> bus \<Rightarrow> (val + val) \<times> bus) \<Rightarrow> bus \<Rightarrow> aggregate \<times> bus" where
  "Promise_map items mapper s = (case map_each mapper items s of (rs, s') \<Rightarrow> (settle rs, s'))"

subsection \<open>\<open>triggerThen\<close> (lines 104-110)\<close>

text \<open>
  \<open>flatMap\<close> is \<open>flow(map, flatten)\<close> (line 10): the lists of \<open>this.listeners(name)\<close> for the
  words of the argument, concatenated. The mapper given to \<open>Promise.map\<close> is
  \<open>listener.apply(this, args)\<close>.
\<close>

definition flatMap :: "jsstring list \<Rightarrow> (jsstring \<Rightarrow> fn list) \<Rightarrow> fn list" where
  "flatMap ns f = concat (map f ns)"

definition outcomes :: "env \<Rightarrow> jsstring \<Rightarrow> val list \<Rightarrow> bus \<Rightarrow> (val + val) list" where
  "outcomes E nameOrNames args s =
     fst (map_each (\<lambda>listener. invoke E ByTriggerThen listener BusInstance args)
            (flatMap (words nameOrNames) (listeners s)) s)"

definition triggerThen :: "env \<Rightarrow> jsstring \<Rightarrow> val list \<Rightarrow> bus \<Rightarrow> aggregate \<times> bus" where
  "triggerThen E nameOrNames args s =
     (let ns = words nameOrNames;
          ls = flatMap ns (listeners s)
      in Promise_map ls (\<lambda>listener. invoke E ByTriggerThen listener BusInstance args) s)"

subsection \<open>Sequences of calls on the bus\<close>

datatype op =
    On jsstring fn "val list"
  | Off "jsstring option" "fn option"
  | Once jsstring nat "val option"
  | Trigger names "val list"
  | TriggerThen jsstring "val list"

fun step :: "env \<Rightarrow> op \<Rightarrow> bus \<Rightarrow> bus" where
  "step E (On nameOrNames handler args) s = on nameOrNames handler args s"
| "step E (Off nameOrNames listener) s = off E nameOrNames listener s"
| "step E (Once name callback context) s = once name callback context s"
| "step E (Trigger nameOrNames args) s = snd (trigger E nameOrNames args s)"
| "step E (TriggerThen nameOrNames args) s = snd (triggerThen E nameOrNames args s)"

fun run :: "env \<Rightarrow> op list \<Rightarrow> bus \<Rightarrow> bus" where
  "run E [] s = s"
| "run E (x # xs) s = run E xs (step E x s)"

subsection \<open>Notions of the specification\<close>

text \<open>
  Splitting at runs of whitespace, as the specification describes the parsing of a
  name list (section 3): the tokens are the maximal runs of characters that are not
  whitespace (the characters of the class \<open>\s\<close> of JavaScript).
\<close>

definition whitespace :: "nat \<Rightarrow> bool" where
  "whitespace u \<longleftrightarrow>
     u \<in> {0x09, 0x0A, 0x0B, 0x0C, 0x0D, 0x20, 0xA0, 0x1680, 0x2028, 0x2029, 0x202F, 0x205F,
          0x3000, 0xFEFF}
     \<or> (0x2000 \<le> u \<and> u \<le> 0x200A)"

fun whitespace_tokens_from :: "jsstring \<Rightarrow> jsstring \<Rightarrow> jsstring list" where
  "whitespace_tokens_from tok [] = (if tok = [] then [] else [tok])"
| "whitespace_tokens_from tok (c # cs) =
     (if whitespace c
      then (if tok = [] then whitespace_tokens_from [] cs
            else tok # whitespace_tokens_from [] cs)
      else whitespace_tokens_from (tok @ [c]) cs)"

definition whitespace_tokens :: "jsstring \<Rightarrow> jsstring list" where
  "whitespace_tokens s = whitespace_tokens_from [] s"

text \<open>
  The calls a delivery owes: for each name in order, one call of every listener
  registered for the name when the name is reached, in registration order, with the bus
  as receiver and the trailing arguments.
\<close>

definition dispatch :: "jsstring \<Rightarrow> val list \<Rightarrow> fn \<Rightarrow> call" where
  "dispatch name args l =
     \<lparr>callee = l, receiver = BusInstance, arguments = args, site = ByEmit name\<rparr>"

fun delivery_order :: "env \<Rightarrow> jsstring list \<Rightarrow> val list \<Rightarrow> bus \<Rightarrow> call list" where
  "delivery_order E [] args s = []"
| "delivery_order E (name # ns) args s =
     map (dispatch name args) (events s name) @
     delivery_order E ns args (snd (emit E name args s))"

definition by_emit :: "call \<Rightarrow> bool" where
  "by_emit c = (case site c of ByEmit name \<Rightarrow> True | _ \<Rightarrow> False)"

definition once_call :: "call \<Rightarrow> bool" where
  "once_call c = (case site c of ByOnce w \<Rightarrow> True | _ \<Rightarrow> False)"

text \<open>
  An environment for the concrete runs below: callback 0 throws the error \<open>boom\<close>,
  callback 1 returns 1, callback 2 returns an asynchronous result that resolves to 2 at
  tick 5, callback 3 one that fails at tick 4, callback 4 throws the error \<open>bang\<close>, and
  every other callback returns \<open>undefined\<close>.
\<close>

definition sample_env :: env where
  "sample_env =
     \<lparr>behaviour = (\<lambda>c this args.
        if c = 0 then Inl (Error ''boom'')
        else if c = 1 then Inr (Num 1)
        else if c = 2 then Inr (Resolving 5 (Num 2))
        else if c = 3 then Inr (Rejecting 4 (Error ''late''))
        else if c = 4 then Inl (Error ''bang'')
        else Inr Undefined),
      toString = (\<lambda>f. (str ''function''))\<rparr>"

text \<open>
  Two notions for the proofs about once-wrappers. The \<open>potential\<close> of wrapper \<open>w\<close> counts the
  calls its body has made and adds one while the closure's counter still allows a call.
  A state \<open>advances\<close> to another when the trace only grows, wrapper numbers are not given
  out twice, and the potential of a wrapper that exists does not grow.
\<close>

definition potential :: "nat \<Rightarrow> bus \<Rightarrow> nat" where
  "potential w s =
     length (filter (\<lambda>c. site c = ByOnce w) (trace s)) + (if 2 \<le> calls_left s w then 1 else 0)"

definition advances :: "nat \<Rightarrow> bus \<Rightarrow> bus \<Rightarrow> bool" where
  "advances w s s' \<longleftrightarrow>
     (\<exists>ys. trace s' = trace s @ ys) \<and> next_once s \<le> next_once s' \<and>
     (calls_left s w \<le> 2 \<and> w < next_once s \<longrightarrow>
        calls_left s' w \<le> 2 \<and> potential w s' \<le> potential w s)"

text \<open>
  A listener registered by \<open>on\<close> with a caller's callback, as opposed to a once-wrapper.
\<close>

definition plain :: "fn \<Rightarrow> bool" where
  "plain f = (case f of Callback c \<Rightarrow> True | OnceWrapper w name c ctx \<Rightarrow> False)"

text \<open>An environment in which no callback throws: callback \<open>c\<close> returns the number \<open>c\<close>.\<close>

definition calm_env :: env where
  "calm_env = \<lparr>behaviour = (\<lambda>c this args. Inr (Num (int c))), toString = (\<lambda>f. (str ''function''))\<rparr>"


text \<open>
  Three notions for the proof that a callback registered by \<open>once\<close> alone is invoked at
  most once altogether: a call is \<open>foreign\<close> to a callback when it is not a call of the
  callback, unless made by the body of wrapper \<open>w\<close>; a wrapper is \<open>sole\<close> when it is the only
  listener in the table; an operation \<open>keeps_sole\<close> when the wrapper stays the only listener
  and every call the operation makes is foreign.
\<close>

definition foreign :: "nat \<Rightarrow> nat \<Rightarrow> call \<Rightarrow> bool" where
  "foreign w callback c \<longleftrightarrow> callee c \<noteq> Callback callback \<or> site c = ByOnce w"

definition sole :: "fn \<Rightarrow> bus \<Rightarrow> bool" where
  "sole W s \<longleftrightarrow> (\<forall>n. \<forall>l \<in> set (events s n). l = W)"

definition keeps_sole :: "fn \<Rightarrow> nat \<Rightarrow> nat \<Rightarrow> bus \<Rightarrow> bus \<Rightarrow> bool" where
  "keeps_sole W w callback s s' \<longleftrightarrow>
     sole W s' \<and> (\<exists>ys. trace s' = trace s @ ys \<and> (\<forall>c \<in> set ys. foreign w callback c))"



text \<open>
  Notions for the proofs about exceptions: the exception of a result; a list of calls
  \<open>explains\<close> an outcome when no call threw and the outcome is a return, or the last call
  threw the exception and no earlier one threw; a state \<open>grows\<close> to another when the trace
  is extended.
\<close>

definition exception :: "val + 'a \<Rightarrow> val option" where
  "exception r = (case r of Inl e \<Rightarrow> Some e | Inr v \<Rightarrow> None)"



text \<open>A string that is one code point of two code units.\<close>

definition surrogate_pair :: "jsstring \<Rightarrow> bool" where
  "surrogate_pair cs \<longleftrightarrow>
     (case cs of [u, v] \<Rightarrow> lead_surrogate u \<and> trail_surrogate v | _ \<Rightarrow> False)"

section \<open>Properties\<close>

subsection \<open>Strings and the words of the names used below\<close>

lemma str_eq_iff [simp]: "str a = str b \<longleftrightarrow> a = b"
  by (simp add: str_def inj_map_eq_map [OF inj_of_char])


lemma words_x: "words (str ''x'') = [str ''x'']"
  by code_simp

lemma words_e: "words (str ''e'') = [str ''e'']"
  by code_simp

lemma words_a: "words (str ''a'') = [str ''a'']"
  by code_simp

lemma words_b: "words (str ''b'') = [str ''b'']"
  by code_simp

lemma words_ab: "words (str ''ab'') = [str ''ab'']"
  by code_simp

lemma words_a_b: "words (str ''a b'') = [str ''a'', str ''b'']"
  by code_simp

lemma words_a_colon_b: "words (str ''a:b'') = [str ''a'', str ''b'']"
  by code_simp

lemma code_points_shape:
  "p \<in> set (code_points cs) \<Longrightarrow> length p = 1 \<or> surrogate_pair p"
  by (induction cs rule: code_points.induct) (auto simp: surrogate_pair_def split: if_splits)

lemma code_points_units:
  "\<forall>u \<in> set cs. \<not> lead_surrogate u \<Longrightarrow> code_points cs = map (\<lambda>u. [u]) cs"
  by (induction cs rule: code_points.induct) auto

lemma code_points_ab: "code_points (str ''ab'') = [str ''a'', str ''b'']"
  by (simp add: str_def lead_surrogate_def)

lemma length_str [simp]: "length (str cs) = length cs"
  by (simp add: str_def)

lemma not_surrogate_pair_ab: "\<not> surrogate_pair (str ''ab'')"
  by (simp add: surrogate_pair_def str_def lead_surrogate_def)

lemma whitespace_tokens_a_colon_b: "whitespace_tokens (str ''a:b'') = [str ''a:b'']"
  by (simp add: whitespace_tokens_def whitespace_def str_def)

lemmas bus_defs =
  on_def off_def once_def trigger_def emit_def addListener_def removeAllListeners_def
  new_bus_def record_call_def once_arguments_def unhandled_def

subsection \<open>What the operations leave unchanged\<close>

lemma calls_since_append: "trace s' = trace s @ ys \<Longrightarrow> calls_since s s' = ys"
  by (simp add: calls_since_def)

lemma add_each_fields [simp]:
  "trace (add_each ns h a s) = trace s"
  "calls_left (add_each ns h a s) = calls_left s"
  "cached (add_each ns h a s) = cached s"
  "next_once (add_each ns h a s) = next_once s"
  by (induction ns arbitrary: s) (auto simp: addListener_def)

lemma remove_each_fields [simp]:
  "trace (remove_each ns l s) = trace s"
  "calls_left (remove_each ns l s) = calls_left s"
  "cached (remove_each ns l s) = cached s"
  "next_once (remove_each ns l s) = next_once s"
  by (induction ns arbitrary: s) (auto simp: removeAllListeners_def)

lemma on_fields [simp]:
  "trace (on n h a s) = trace s"
  "calls_left (on n h a s) = calls_left s"
  "cached (on n h a s) = cached s"
  "next_once (on n h a s) = next_once s"
  by (simp_all add: on_def)

lemma off_fields [simp]:
  "trace (off E n l s) = trace s"
  "calls_left (off E n l s) = calls_left s"
  "cached (off E n l s) = cached s"
  "next_once (off E n l s) = next_once s"
  by (simp_all add: off_def removeAllListeners_def split: option.splits)

lemma once_fields [simp]:
  "trace (once n c ctx s) = trace s"
  "next_once (once n c ctx s) = Suc (next_once s)"
  "calls_left (once n c ctx s) = (calls_left s)(next_once s := 2)"
  by (simp_all add: once_def Let_def)

subsection \<open>Every operation advances the state\<close>

lemma advances_refl: "advances w s s"
  by (simp add: advances_def)

lemma advances_trans: "advances w s s1 \<Longrightarrow> advances w s1 s2 \<Longrightarrow> advances w s s2"
  unfolding advances_def by (elim conjE exE) (auto)

lemma advances_same:
  "trace s' = trace s \<Longrightarrow> calls_left s' = calls_left s \<Longrightarrow> next_once s' = next_once s
   \<Longrightarrow> advances w s s'"
  by (simp add: advances_def potential_def)

lemma advances_on: "advances w s (on n h a s)"
  by (rule advances_same) simp_all

lemma advances_off: "advances w s (off E n l s)"
  by (rule advances_same) simp_all

lemma advances_once: "advances w s (once n c ctx s)"
  by (auto simp: advances_def potential_def)

lemma advances_invoke:
  "st \<noteq> ByOnce w \<Longrightarrow> advances w s (snd (invoke E st f this args s))"
  by (cases f) (auto simp: advances_def potential_def record_call_def Let_def split: sum.splits)

lemma advances_invoke_each:
  "advances w s (snd (invoke_each E n ls args s))"
proof (induction ls arbitrary: s)
  case Nil
  show ?case by (simp add: advances_refl)
next
  case (Cons l ls)
  have a: "advances w s (snd (invoke E (ByEmit n) l BusInstance args s))"
    by (rule advances_invoke) simp
  show ?case
  proof (cases "invoke E (ByEmit n) l BusInstance args s")
    case (Pair r s1)
    with a have a1: "advances w s s1" by simp
    show ?thesis
    proof (cases r)
      case (Inl e)
      with Pair a1 show ?thesis by simp
    next
      case (Inr v)
      with Pair have "snd (invoke_each E n (l # ls) args s) = snd (invoke_each E n ls args s1)"
        by simp
      with a1 Cons.IH [of s1] show ?thesis by (auto intro: advances_trans)
    qed
  qed
qed

lemma advances_emit: "advances w s (snd (emit E n args s))"
  using advances_invoke_each [of w s E n "events s n" args]
  by (auto simp: emit_def advances_refl split: prod.splits sum.splits)

lemma advances_emit_each: "advances w s (snd (emit_each E ns args s))"
proof (induction ns arbitrary: s)
  case Nil
  show ?case by (simp add: advances_refl)
next
  case (Cons n ns)
  have a: "advances w s (snd (emit E n args s))" by (rule advances_emit)
  show ?case
  proof (cases "emit E n args s")
    case (Pair r s1)
    with a have a1: "advances w s s1" by simp
    show ?thesis
    proof (cases r)
      case (Inl e)
      with Pair a1 show ?thesis by simp
    next
      case (Inr v)
      with Pair have "snd (emit_each E (n # ns) args s) = snd (emit_each E ns args s1)"
        by simp
      with a1 Cons.IH [of s1] show ?thesis by (auto intro: advances_trans)
    qed
  qed
qed

lemma advances_trigger: "advances w s (snd (trigger E nm args s))"
  using advances_emit_each [of w s E "iterate nm" args]
  by (auto simp: trigger_def split: prod.splits sum.splits)

lemma advances_map_each:
  "advances w s (snd (map_each (\<lambda>l. invoke E ByTriggerThen l BusInstance args) ls s))"
proof (induction ls arbitrary: s)
  case Nil
  show ?case by (simp add: advances_refl)
next
  case (Cons l ls)
  have a: "advances w s (snd (invoke E ByTriggerThen l BusInstance args s))"
    by (rule advances_invoke) simp
  then show ?case
    using Cons.IH [of "snd (invoke E ByTriggerThen l BusInstance args s)"]
    by (auto split: prod.splits intro: advances_trans)
qed

lemma advances_triggerThen: "advances w s (snd (triggerThen E n args s))"
  using advances_map_each [of w s E args "flatMap (words n) (listeners s)"]
  by (auto simp: triggerThen_def Promise_map_def Let_def split: prod.splits)

lemma advances_step: "advances w s (step E x s)"
  by (cases x) (simp_all add: advances_on advances_off advances_once advances_trigger
      advances_triggerThen)

lemma advances_run: "advances w s (run E xs s)"
proof (induction xs arbitrary: s)
  case Nil
  show ?case by (simp add: advances_refl)
next
  case (Cons x xs)
  show ?case
    using advances_step [of w s E x] Cons.IH [of "step E x s"]
    by (auto intro: advances_trans)
qed

subsection \<open>The calls of a delivery\<close>

lemma trace_invoke:
  "\<exists>ys. trace (snd (invoke E st f this args s)) =
          trace s @ \<lparr>callee = f, receiver = this, arguments = args, site = st\<rparr> # ys
        \<and> (\<forall>c \<in> set ys. once_call c)"
  by (cases f) (auto simp: record_call_def Let_def once_call_def split: sum.splits)

lemma by_emit_dispatch [simp]: "by_emit (dispatch n args l)"
  by (simp add: by_emit_def dispatch_def)

lemma once_call_not_by_emit: "once_call c \<Longrightarrow> \<not> by_emit c"
  by (auto simp: once_call_def by_emit_def split: site.splits)

lemma filter_once_calls: "\<forall>c \<in> set ys. once_call c \<Longrightarrow> filter by_emit ys = []"
  by (induction ys) (auto dest: once_call_not_by_emit)

lemma invoke_each_delivery:
  "fst (invoke_each E n ls args s) = Inr u \<Longrightarrow>
   \<exists>ys. trace (snd (invoke_each E n ls args s)) = trace s @ ys
       \<and> filter by_emit ys = map (dispatch n args) ls"
proof (induction ls arbitrary: s)
  case Nil
  then show ?case by simp
next
  case (Cons l ls)
  obtain r s1 where i: "invoke E (ByEmit n) l BusInstance args s = (r, s1)"
    by (cases "invoke E (ByEmit n) l BusInstance args s")
  from Cons.prems i obtain v where r: "r = Inr v" by (cases r) auto
  from trace_invoke [of E "ByEmit n" l BusInstance args s] i
  obtain ys where ys: "trace s1 = trace s @ dispatch n args l # ys" "\<forall>c \<in> set ys. once_call c"
    by (auto simp: dispatch_def)
  from i r have e: "invoke_each E n (l # ls) args s = invoke_each E n ls args s1" by simp
  with Cons.prems have "fst (invoke_each E n ls args s1) = Inr u" by simp
  from Cons.IH [OF this] obtain zs
    where zs: "trace (snd (invoke_each E n ls args s1)) = trace s1 @ zs"
      "filter by_emit zs = map (dispatch n args) ls" by auto
  from ys zs e have "trace (snd (invoke_each E n (l # ls) args s)) =
      trace s @ (dispatch n args l # ys @ zs)" by simp
  moreover from ys zs have "filter by_emit (dispatch n args l # ys @ zs) =
      map (dispatch n args) (l # ls)" by (simp add: filter_once_calls)
  ultimately show ?case by blast
qed

lemma emit_delivery:
  "fst (emit E n args s) = Inr b \<Longrightarrow>
   \<exists>ys. trace (snd (emit E n args s)) = trace s @ ys
       \<and> filter by_emit ys = map (dispatch n args) (events s n)"
proof -
  assume a: "fst (emit E n args s) = Inr b"
  show ?thesis
  proof (cases "events s n = []")
    case True
    with a show ?thesis by (auto simp: emit_def split: if_splits)
  next
    case False
    with a obtain u where "fst (invoke_each E n (events s n) args s) = Inr u"
      and "snd (emit E n args s) = snd (invoke_each E n (events s n) args s)"
      by (auto simp: emit_def split: if_splits prod.splits sum.splits)
    with invoke_each_delivery [of E n "events s n" args s u] show ?thesis by simp
  qed
qed

lemma emit_each_delivery:
  "fst (emit_each E ns args s) = Inr u \<Longrightarrow>
   \<exists>ys. trace (snd (emit_each E ns args s)) = trace s @ ys
       \<and> filter by_emit ys = delivery_order E ns args s"
proof (induction ns arbitrary: s)
  case Nil
  then show ?case by simp
next
  case (Cons n ns)
  obtain r s1 where i: "emit E n args s = (r, s1)" by (cases "emit E n args s")
  from Cons.prems i obtain b where r: "r = Inr b" by (cases r) auto
  from emit_delivery [of E n args s b] i r
  obtain ys where ys: "trace s1 = trace s @ ys"
      "filter by_emit ys = map (dispatch n args) (events s n)" by auto
  from i r have e: "emit_each E (n # ns) args s = emit_each E ns args s1" by simp
  with Cons.prems have "fst (emit_each E ns args s1) = Inr u" by simp
  from Cons.IH [OF this] obtain zs
    where zs: "trace (snd (emit_each E ns args s1)) = trace s1 @ zs"
      "filter by_emit zs = delivery_order E ns args s1" by auto
  from ys zs e have "trace (snd (emit_each E (n # ns) args s)) = trace s @ (ys @ zs)" by simp
  moreover from ys zs i have "filter by_emit (ys @ zs) = delivery_order E (n # ns) args s"
    by simp
  ultimately show ?case by blast
qed

lemma invoke_sites:
  "\<exists>ys. trace (snd (invoke E st f this args s)) = trace s @ ys
       \<and> (\<forall>c \<in> set ys. site c = st \<or> once_call c)"
  using trace_invoke [of E st f this args s] by auto

lemma invoke_each_sites:
  "\<exists>ys. trace (snd (invoke_each E n ls args s)) = trace s @ ys
       \<and> (\<forall>c \<in> set ys. site c = ByEmit n \<or> once_call c)"
proof (induction ls arbitrary: s)
  case Nil
  show ?case by simp
next
  case (Cons l ls)
  obtain r s1 where i: "invoke E (ByEmit n) l BusInstance args s = (r, s1)"
    by (cases "invoke E (ByEmit n) l BusInstance args s")
  from invoke_sites [of E "ByEmit n" l BusInstance args s] i
  obtain ys where ys: "trace s1 = trace s @ ys" "\<forall>c \<in> set ys. site c = ByEmit n \<or> once_call c"
    by auto
  show ?case
  proof (cases r)
    case (Inl e)
    with i ys show ?thesis by auto
  next
    case (Inr v)
    from Cons.IH [of s1] obtain zs
      where zs: "trace (snd (invoke_each E n ls args s1)) = trace s1 @ zs"
        "\<forall>c \<in> set zs. site c = ByEmit n \<or> once_call c" by auto
    from i Inr ys zs have "trace (snd (invoke_each E n (l # ls) args s)) = trace s @ (ys @ zs)"
      by simp
    moreover from ys zs have "\<forall>c \<in> set (ys @ zs). site c = ByEmit n \<or> once_call c" by auto
    ultimately show ?thesis by blast
  qed
qed

lemma emit_sites:
  "\<exists>ys. trace (snd (emit E n args s)) = trace s @ ys
       \<and> (\<forall>c \<in> set ys. site c = ByEmit n \<or> once_call c)"
  using invoke_each_sites [of E n "events s n" args s]
  by (auto simp: emit_def split: prod.splits sum.splits)

lemma emit_each_sites:
  "\<exists>ys. trace (snd (emit_each E ns args s)) = trace s @ ys
       \<and> (\<forall>c \<in> set ys. (\<exists>n \<in> set ns. site c = ByEmit n) \<or> once_call c)"
proof (induction ns arbitrary: s)
  case Nil
  show ?case by simp
next
  case (Cons n ns)
  obtain r s1 where i: "emit E n args s = (r, s1)" by (cases "emit E n args s")
  from emit_sites [of E n args s] i
  obtain ys where ys: "trace s1 = trace s @ ys" "\<forall>c \<in> set ys. site c = ByEmit n \<or> once_call c"
    by auto
  show ?case
  proof (cases r)
    case (Inl e)
    with i ys show ?thesis by auto
  next
    case (Inr v)
    from Cons.IH [of s1] obtain zs
      where zs: "trace (snd (emit_each E ns args s1)) = trace s1 @ zs"
        "\<forall>c \<in> set zs. (\<exists>n \<in> set ns. site c = ByEmit n) \<or> once_call c" by auto
    from i Inr ys zs have "trace (snd (emit_each E (n # ns) args s)) = trace s @ (ys @ zs)"
      by simp
    moreover from ys zs
    have "\<forall>c \<in> set (ys @ zs). (\<exists>m \<in> set (n # ns). site c = ByEmit m) \<or> once_call c" by auto
    ultimately show ?thesis by blast
  qed
qed

lemma invoke_each_plain:
  "\<forall>l \<in> set ls. plain l \<Longrightarrow> fst (invoke_each E n ls args s) = Inr u \<Longrightarrow>
   events (snd (invoke_each E n ls args s)) = events s
   \<and> trace (snd (invoke_each E n ls args s)) = trace s @ map (dispatch n args) ls"
proof (induction ls arbitrary: s)
  case Nil
  show ?case by simp
next
  case (Cons l ls)
  from Cons.prems obtain c where l: "l = Callback c"
    by (cases l) (auto simp: plain_def)
  let ?s1 = "record_call (ByEmit n) (Callback c) BusInstance args s"
  from Cons.prems l obtain v where v: "behaviour E c BusInstance args = Inr v"
    by (cases "behaviour E c BusInstance args") auto
  with l have e: "invoke_each E n (l # ls) args s = invoke_each E n ls args ?s1" by simp
  with Cons.prems have "\<forall>l \<in> set ls. plain l" "fst (invoke_each E n ls args ?s1) = Inr u"
    by auto
  from Cons.IH [OF this] e l show ?case
    by (simp add: record_call_def dispatch_def)
qed

lemma emit_plain:
  "\<forall>l \<in> set (events s n). plain l \<Longrightarrow> fst (emit E n args s) = Inr b \<Longrightarrow>
   events (snd (emit E n args s)) = events s
   \<and> trace (snd (emit E n args s)) = trace s @ map (dispatch n args) (events s n)"
proof -
  assume p: "\<forall>l \<in> set (events s n). plain l" and a: "fst (emit E n args s) = Inr b"
  show ?thesis
  proof (cases "events s n = []")
    case True
    with a show ?thesis by (auto simp: emit_def split: if_splits)
  next
    case False
    with a obtain u where "fst (invoke_each E n (events s n) args s) = Inr u"
      and "snd (emit E n args s) = snd (invoke_each E n (events s n) args s)"
      by (auto simp: emit_def split: if_splits prod.splits sum.splits)
    with invoke_each_plain [OF p, of E n args s u] show ?thesis by simp
  qed
qed

lemma emit_each_plain:
  "\<forall>n \<in> set ns. \<forall>l \<in> set (events s n). plain l \<Longrightarrow> fst (emit_each E ns args s) = Inr u \<Longrightarrow>
   events (snd (emit_each E ns args s)) = events s
   \<and> trace (snd (emit_each E ns args s))
       = trace s @ concat (map (\<lambda>n. map (dispatch n args) (events s n)) ns)"
proof (induction ns arbitrary: s)
  case Nil
  show ?case by simp
next
  case (Cons n ns)
  obtain r s1 where i: "emit E n args s = (r, s1)" by (cases "emit E n args s")
  from Cons.prems i obtain b where r: "r = Inr b" by (cases r) auto
  from Cons.prems have "\<forall>l \<in> set (events s n). plain l" by simp
  from emit_plain [OF this, of E args b] i r
  have s1: "events s1 = events s" "trace s1 = trace s @ map (dispatch n args) (events s n)"
    by auto
  from i r have e: "emit_each E (n # ns) args s = emit_each E ns args s1" by simp
  with Cons.prems s1 have "\<forall>n \<in> set ns. \<forall>l \<in> set (events s1 n). plain l"
    "fst (emit_each E ns args s1) = Inr u" by auto
  from Cons.IH [OF this] e s1 show ?case by simp
qed

subsection \<open>Exceptions of a delivery\<close>

lemma exception_simps [simp]: "exception (Inl e) = Some e" "exception (Inr v) = None"
  by (simp_all add: exception_def)







lemma calls_since_same [simp]: "calls_since s s = []"
  by (simp add: calls_since_def)













subsection \<open>The results collected by \<open>triggerThen\<close>\<close>

lemma failure_None_iff: "failure r = None \<longleftrightarrow> succeeds r"
  by (auto simp: failure_def succeeds_def split: sum.splits val.splits)

lemma first_failure_None_iff: "first_failure rs = None \<longleftrightarrow> (\<forall>r \<in> set rs. succeeds r)"
  by (induction rs) (auto simp: failure_None_iff [symmetric] split: option.splits)

lemma first_failure_index:
  "first_failure rs = Some (t, e) \<Longrightarrow>
   \<exists>i < length rs. failure (rs ! i) = Some (t, e)
     \<and> (\<forall>j < length rs. \<forall>t' e'. failure (rs ! j) = Some (t', e') \<longrightarrow>
            t < t' \<or> (t = t' \<and> i \<le> j))"
proof (induction rs arbitrary: t e)
  case Nil
  then show ?case by simp
next
  case (Cons r rs)
  show ?case
  proof (cases "failure r")
    case None
    with Cons.prems have "first_failure rs = Some (t, e)" by simp
    from Cons.IH [OF this] obtain i where i: "i < length rs" "failure (rs ! i) = Some (t, e)"
      "\<forall>j < length rs. \<forall>t' e'. failure (rs ! j) = Some (t', e') \<longrightarrow> t < t' \<or> (t = t' \<and> i \<le> j)"
      by blast
    have "\<forall>j < length (r # rs). \<forall>t' e'. failure ((r # rs) ! j) = Some (t', e') \<longrightarrow>
            t < t' \<or> (t = t' \<and> Suc i \<le> j)"
    proof (intro allI impI)
      fix j t' e'
      assume j: "j < length (r # rs)" and f: "failure ((r # rs) ! j) = Some (t', e')"
      show "t < t' \<or> (t = t' \<and> Suc i \<le> j)"
      proof (cases j)
        case 0
        with f None show ?thesis by simp
      next
        case (Suc k)
        with j f i(3) show ?thesis by auto
      qed
    qed
    with i(1,2) show ?thesis by (intro exI [of _ "Suc i"]) simp
  next
    case (Some p)
    obtain t0 e0 where p: "p = (t0, e0)" by (cases p)
    show ?thesis
    proof (cases "first_failure rs")
      case None
      with Some p Cons.prems have te: "t = t0" "e = e0" by auto
      from None have n: "\<forall>r \<in> set rs. failure r = None"
        by (simp add: first_failure_None_iff failure_None_iff)
      have "\<forall>j < length (r # rs). \<forall>t' e'. failure ((r # rs) ! j) = Some (t', e') \<longrightarrow>
            t < t' \<or> (t = t' \<and> 0 \<le> j)"
      proof (intro allI impI)
        fix j t' e'
        assume j: "j < length (r # rs)" and f: "failure ((r # rs) ! j) = Some (t', e')"
        show "t < t' \<or> (t = t' \<and> 0 \<le> j)"
        proof (cases j)
          case 0
          with f Some p te show ?thesis by simp
        next
          case (Suc k)
          with j have "rs ! k \<in> set rs" by simp
          with n f Suc show ?thesis by simp
        qed
      qed
      with Some p te show ?thesis by (intro exI [of _ 0]) simp
    next
      case (Some q)
      obtain t1 e1 where q: "q = (t1, e1)" by (cases q)
      from Cons.IH [of t1 e1] Some q obtain i where i: "i < length rs"
        "failure (rs ! i) = Some (t1, e1)"
        "\<forall>j < length rs. \<forall>t' e'. failure (rs ! j) = Some (t', e') \<longrightarrow> t1 < t' \<or> (t1 = t' \<and> i \<le> j)"
        by blast
      show ?thesis
      proof (cases "t1 < t0")
        case True
        with \<open>failure r = Some p\<close> p Some q Cons.prems have te: "t = t1" "e = e1" by auto
        have "\<forall>j < length (r # rs). \<forall>t' e'. failure ((r # rs) ! j) = Some (t', e') \<longrightarrow>
            t < t' \<or> (t = t' \<and> Suc i \<le> j)"
        proof (intro allI impI)
          fix j t' e'
          assume j: "j < length (r # rs)" and f: "failure ((r # rs) ! j) = Some (t', e')"
          show "t < t' \<or> (t = t' \<and> Suc i \<le> j)"
          proof (cases j)
            case 0
            with f \<open>failure r = Some p\<close> p te True show ?thesis by simp
          next
            case (Suc k)
            with j f i(3) te show ?thesis by auto
          qed
        qed
        with i(1,2) te show ?thesis by (intro exI [of _ "Suc i"]) simp
      next
        case False
        with \<open>failure r = Some p\<close> p Some q Cons.prems have te: "t = t0" "e = e0" by auto
        have "\<forall>j < length (r # rs). \<forall>t' e'. failure ((r # rs) ! j) = Some (t', e') \<longrightarrow>
            t < t' \<or> (t = t' \<and> 0 \<le> j)"
        proof (intro allI impI)
          fix j t' e'
          assume j: "j < length (r # rs)" and f: "failure ((r # rs) ! j) = Some (t', e')"
          show "t < t' \<or> (t = t' \<and> 0 \<le> j)"
          proof (cases j)
            case 0
            with f \<open>failure r = Some p\<close> p te show ?thesis by simp
          next
            case (Suc k)
            with j f i(3) have "t1 < t' \<or> t1 = t'" by auto
            with False te show ?thesis by auto
          qed
        qed
        with \<open>failure r = Some p\<close> p te show ?thesis by (intro exI [of _ 0]) simp
      qed
    qed
  qed
qed



lemma triggerThen_settles:
  "fst (triggerThen E nameOrNames args s) = settle (outcomes E nameOrNames args s)"
  by (simp add: triggerThen_def Promise_map_def outcomes_def Let_def case_prod_beta)

subsection \<open>A bus whose only listener is one once-wrapper\<close>

lemma remove_each_events: "set (events (remove_each ns l s) n) \<subseteq> set (events s n)"
proof (induction ns arbitrary: s)
  case Nil
  show ?case by simp
next
  case (Cons a ns)
  have "set (events (removeAllListeners (Some a) l s) n) \<subseteq> set (events s n)"
    by (simp add: removeAllListeners_def)
  with Cons.IH [of "removeAllListeners (Some a) l s"] show ?case by auto
qed

lemma sole_off: "sole W s \<Longrightarrow> sole W (off E nm l s)"
proof -
  assume a: "sole W s"
  have "set (events (off E nm l s) n) \<subseteq> set (events s n)" for n
    using remove_each_events [of _ _ s n]
    by (auto simp: off_def removeAllListeners_def split: option.splits)
  with a show ?thesis unfolding sole_def by blast
qed

lemma keeps_sole_refl: "sole W s \<Longrightarrow> keeps_sole W w cb s s"
  by (simp add: keeps_sole_def)

lemma keeps_sole_trans:
  "keeps_sole W w cb s s1 \<Longrightarrow> keeps_sole W w cb s1 s2 \<Longrightarrow> keeps_sole W w cb s s2"
  unfolding keeps_sole_def by (elim conjE exE) auto

lemma keeps_sole_invoke:
  assumes "sole (OnceWrapper w name cb ctx) s"
  shows "keeps_sole (OnceWrapper w name cb ctx) w cb s
           (snd (invoke E st (OnceWrapper w name cb ctx) t a s))"
proof -
  let ?W = "OnceWrapper w name cb ctx"
  let ?s0 = "record_call st ?W t a s"
  let ?s1 = "?s0\<lparr>calls_left := (calls_left ?s0)(w := calls_left ?s0 w - 1)\<rparr>"
  from assms have s1: "sole ?W ?s1" by (simp add: sole_def record_call_def)
  then have "sole ?W (off E (Some name) (Some ?W) ?s1)" by (rule sole_off)
  then have s3: "sole ?W (s'\<lparr>trace := tr\<rparr>)" "sole ?W (s'\<lparr>trace := tr, cached := ca\<rparr>)"
    if "s' = off E (Some name) (Some ?W) ?s1" for s' tr ca
    using that by (simp_all add: sole_def)
  show ?thesis
    unfolding keeps_sole_def
    using s1 s3 by (auto simp: Let_def record_call_def foreign_def split: sum.splits)
qed

lemma keeps_sole_invoke_each:
  "sole (OnceWrapper w name cb ctx) s \<Longrightarrow> \<forall>l \<in> set ls. l = OnceWrapper w name cb ctx \<Longrightarrow>
   keeps_sole (OnceWrapper w name cb ctx) w cb s (snd (invoke_each E m ls a s))"
proof (induction ls arbitrary: s)
  case Nil
  then show ?case by (simp add: keeps_sole_refl)
next
  case (Cons l ls)
  let ?W = "OnceWrapper w name cb ctx"
  from Cons.prems have l: "l = ?W" and ls: "\<forall>l \<in> set ls. l = ?W" by auto
  obtain r s1 where i: "invoke E (ByEmit m) ?W BusInstance a s = (r, s1)"
    by (cases "invoke E (ByEmit m) ?W BusInstance a s")
  from keeps_sole_invoke [OF Cons.prems(1), of E "ByEmit m" BusInstance a] i
  have k: "keeps_sole ?W w cb s s1" by simp
  show ?case
  proof (cases r)
    case (Inl e)
    with i l k show ?thesis by simp
  next
    case (Inr v)
    from k have "sole ?W s1" by (simp add: keeps_sole_def)
    from Cons.IH [OF this ls] k i l Inr show ?thesis
      by (auto intro: keeps_sole_trans)
  qed
qed

lemma keeps_sole_emit:
  assumes "sole (OnceWrapper w name cb ctx) s"
  shows "keeps_sole (OnceWrapper w name cb ctx) w cb s (snd (emit E m a s))"
proof -
  from assms have "\<forall>l \<in> set (events s m). l = OnceWrapper w name cb ctx"
    by (simp add: sole_def)
  from keeps_sole_invoke_each [OF assms this, of E m a] keeps_sole_refl [OF assms, of w cb]
  show ?thesis by (auto simp: emit_def split: prod.splits sum.splits)
qed

lemma keeps_sole_emit_each:
  "sole (OnceWrapper w name cb ctx) s \<Longrightarrow>
   keeps_sole (OnceWrapper w name cb ctx) w cb s (snd (emit_each E ms a s))"
proof (induction ms arbitrary: s)
  case Nil
  then show ?case by (simp add: keeps_sole_refl)
next
  case (Cons m ms)
  let ?W = "OnceWrapper w name cb ctx"
  obtain r s1 where i: "emit E m a s = (r, s1)" by (cases "emit E m a s")
  from keeps_sole_emit [OF Cons.prems, of E m a] i
  have k: "keeps_sole ?W w cb s s1" by simp
  show ?case
  proof (cases r)
    case (Inl e)
    with i k show ?thesis by simp
  next
    case (Inr v)
    from k have "sole ?W s1" by (simp add: keeps_sole_def)
    from Cons.IH [OF this] k i Inr show ?thesis
      by (auto intro: keeps_sole_trans)
  qed
qed

lemma keeps_sole_trigger:
  "sole (OnceWrapper w name cb ctx) s \<Longrightarrow>
   keeps_sole (OnceWrapper w name cb ctx) w cb s (snd (trigger E nm a s))"
  using keeps_sole_emit_each [of w name cb ctx s E "iterate nm" a]
  by (auto simp: trigger_def split: prod.splits sum.splits)

lemma keeps_sole_triggers:
  "sole (OnceWrapper w name cb ctx) s \<Longrightarrow>
   keeps_sole (OnceWrapper w name cb ctx) w cb s
     (run E (map (\<lambda>(nm, a). Trigger nm a) ts) s)"
proof (induction ts arbitrary: s)
  case Nil
  then show ?case by (simp add: keeps_sole_refl)
next
  case (Cons p ts)
  let ?W = "OnceWrapper w name cb ctx"
  obtain nm a where p: "p = (nm, a)" by (cases p)
  from keeps_sole_trigger [OF Cons.prems, of E nm a]
  have k: "keeps_sole ?W w cb s (snd (trigger E nm a s))" .
  then have "sole ?W (snd (trigger E nm a s))" by (simp add: keeps_sole_def)
  from Cons.IH [OF this] k p show ?case
    by (auto intro: keeps_sole_trans)
qed

lemma add_each_events:
  "set (events (add_each ns h a s) n) \<subseteq> insert h (set (events s n))"
proof (induction ns arbitrary: s)
  case Nil
  show ?case by auto
next
  case (Cons m ns)
  have "set (events (addListener m h a s) n) \<subseteq> insert h (set (events s n))"
    by (auto simp: addListener_def)
  with Cons.IH [of "addListener m h a s"] show ?case by auto
qed

lemma sole_once_new_bus: "sole (OnceWrapper 0 name cb ctx) (once name cb ctx new_bus)"
proof -
  let ?s1 = "new_bus\<lparr>calls_left := (calls_left new_bus)(0 := 2),
                     cached := (cached new_bus)(0 := Undefined), next_once := Suc 0\<rparr>"
  have "set (events (add_each (words name) (OnceWrapper 0 name cb ctx) a ?s1) n)
          \<subseteq> {OnceWrapper 0 name cb ctx}" for a n
    using add_each_events [of "words name" "OnceWrapper 0 name cb ctx" a ?s1 n]
    by (simp add: new_bus_def)
  then show ?thesis
    by (auto simp: sole_def once_def on_def Let_def new_bus_def)
qed

lemma filter_foreign:
  "\<forall>c \<in> set ys. foreign w cb c \<Longrightarrow>
   length (filter (\<lambda>c. callee c = Callback cb) ys) \<le> length (filter (\<lambda>c. site c = ByOnce w) ys)"
  by (induction ys) (auto simp: foreign_def)

subsection \<open>\<open>off\<close> with a name and a listener\<close>

text \<open>
  C1. The claim: \<open>off(name, cb)\<close> removes exactly the registrations under the name whose
  callback is \<open>cb\<close> and leaves every registration of another callback under the name in
  place. The code passes \<open>cb\<close> as a second argument to \<open>removeAllListeners\<close>, which reads
  only the name: after \<open>on("x", f); on("x", g); off("x", f)\<close> the list of \<open>x\<close>, which was
  \<open>[f, g]\<close>, is empty, where the claim leaves \<open>[g]\<close>.
\<close>

theorem off_named_listener_removes_all:
  "events (on (str ''x'') (Callback 1) [] (on (str ''x'') (Callback 0) [] new_bus)) (str ''x'')
     = [Callback 0, Callback 1]
   \<and> events (off E (Some (str ''x'')) (Some (Callback 0))
               (on (str ''x'') (Callback 1) [] (on (str ''x'') (Callback 0) [] new_bus))) (str ''x'')
     = []"
  by (simp add: bus_defs words_x)

text \<open>
  C9. The claim: \<open>off\<close> with a listener that is not registered under the name is a no-op
  that leaves the registrations of other callbacks under the name unchanged. After
  \<open>on("x", g); off("x", f)\<close>, with \<open>f\<close> never registered, the registration of \<open>g\<close> is gone.
\<close>

theorem off_unregistered_listener_removes_others:
  "events (on (str ''x'') (Callback 1) [] new_bus) (str ''x'') = [Callback 1]
   \<and> events (off E (Some (str ''x'')) (Some (Callback 7)) (on (str ''x'') (Callback 1) [] new_bus)) (str ''x'')
     = []"
  by (simp add: bus_defs words_x)

subsection \<open>A once-wrapper that fires\<close>

text \<open>
  C3. The claim: a once-wrapper that fires for a name deregisters only itself from that
  name, and every other registration under that name and under every other name is
  unchanged. The wrapper calls \<open>this.off(name, once)\<close>, which empties the list of every
  word of \<open>name\<close>. After \<open>once("x", f); on("x", g); trigger(["x"])\<close> the registration of
  \<open>g\<close> under \<open>x\<close> is gone; after \<open>once("a b", f); on("b", g); trigger(["a"])\<close> the
  registration of \<open>g\<close> under \<open>b\<close> is gone.
\<close>

theorem once_wrapper_removal_clears_name:
  "events (on (str ''x'') (Callback 1) [] (once (str ''x'') 0 None new_bus)) (str ''x'')
     = [OnceWrapper 0 (str ''x'') 0 None, Callback 1]
   \<and> events (snd (trigger E (NameList [str ''x'']) args
               (on (str ''x'') (Callback 1) [] (once (str ''x'') 0 None new_bus)))) (str ''x'')
     = []
   \<and> events (on (str ''b'') (Callback 1) [] (once (str ''a b'') 0 None new_bus)) (str ''b'')
     = [OnceWrapper 0 (str ''a b'') 0 None, Callback 1]
   \<and> events (snd (trigger E (NameList [str ''a'']) args
               (on (str ''b'') (Callback 1) [] (once (str ''a b'') 0 None new_bus)))) (str ''b'')
     = []"
  by (simp add: bus_defs words_x words_b words_a_b Let_def split: sum.splits)

text \<open>
  C4. The claim: when a once-wrapper fires by a \<open>trigger\<close> with trailing arguments, the
  original callback is invoked with those arguments and with the registered context.
  The wrapper's body is an arrow function, so its \<open>arguments\<close> and \<open>this\<close> are those of the
  method \<open>once\<close>. After \<open>once("x", f, ctx); trigger(["x"], 1, 2)\<close> the wrapper has received
  \<open>(1, 2)\<close>, and \<open>f\<close> has been invoked with the arguments \<open>("x", f, ctx)\<close> and the bus as
  receiver.
\<close>

theorem once_callback_receives_once_arguments:
  "trace (snd (trigger E (NameList [str ''x'']) [Num 1, Num 2]
                (once (str ''x'') 0 (Some (Obj 5)) new_bus)))
     = [\<lparr>callee = OnceWrapper 0 (str ''x'') 0 (Some (Obj 5)), receiver = BusInstance,
          arguments = [Num 1, Num 2], site = ByEmit (str ''x'')\<rparr>,
        \<lparr>callee = Callback 0, receiver = BusInstance,
          arguments = [Str (str ''x''), Fun (Callback 0), Obj 5], site = ByOnce 0\<rparr>]"
  by (simp add: bus_defs words_x Let_def split: sum.splits)

subsection \<open>The words of a name list\<close>

text \<open>
  C8. The claim: a name string is split into tokens exactly at runs of whitespace, and
  each whitespace-delimited substring, whatever characters it contains, is one event
  name. The code splits with lodash's \<open>words\<close>, which matches runs of letters and runs of
  digits: \<open>on("a:b", h)\<close> registers \<open>h\<close> under \<open>a\<close> and under \<open>b\<close> and not under \<open>a:b\<close>, the
  one token that splitting at whitespace gives.
\<close>

theorem words_splits_inside_token:
  "whitespace_tokens (str ''a:b'') = [str ''a:b'']
   \<and> words (str ''a:b'') = [str ''a'', str ''b'']
   \<and> events (on (str ''a:b'') h [] new_bus) (str ''a:b'') = []
   \<and> events (on (str ''a:b'') h [] new_bus) (str ''a'') = [h]
   \<and> events (on (str ''a:b'') h [] new_bus) (str ''b'') = [h]"
  by (simp add: bus_defs words_a_colon_b whitespace_tokens_a_colon_b)

subsection \<open>At most one call through a once-wrapper\<close>

text \<open>
  C2. After \<open>once(name, callback)\<close>, whatever calls are made on the bus afterwards
  (\<open>trigger\<close> for any names, and also \<open>on\<close>, \<open>off\<close>, \<open>once\<close> and \<open>triggerThen\<close>), the body of
  the wrapper that this \<open>once\<close> created invokes the callback at most one time. When the
  wrapper itself is invoked a second time, directly, that invocation adds nothing but
  its own entry to the trace: the callback is not invoked again. And on a new bus, after
  \<open>once(name, callback)\<close> and any number of \<open>trigger\<close> calls, the callback has been invoked
  at most one time altogether.
\<close>

theorem once_callback_at_most_once:
  "length (filter (\<lambda>c. site c = ByOnce (next_once s))
      (calls_since s (run E xs (once name callback context s)))) \<le> 1
   \<and> calls_since
        (snd (invoke E st (OnceWrapper (next_once s) name callback context) t a
               (once name callback context s)))
        (snd (invoke E st' (OnceWrapper (next_once s) name callback context) t' a'
               (snd (invoke E st (OnceWrapper (next_once s) name callback context) t a
                      (once name callback context s)))))
       = [\<lparr>callee = OnceWrapper (next_once s) name callback context, receiver = t',
            arguments = a', site = st'\<rparr>]
   \<and> length (filter (\<lambda>c. callee c = Callback callback)
        (trace (run E (map (\<lambda>(nm, a). Trigger nm a) ts)
                  (once name callback context new_bus)))) \<le> 1"
proof (intro conjI)
  let ?w = "next_once s"
  let ?s1 = "once name callback context s"
  let ?s2 = "run E xs ?s1"
  have "advances ?w ?s1 ?s2" by (rule advances_run)
  moreover have "calls_left ?s1 ?w \<le> 2" "?w < next_once ?s1" by simp_all
  ultimately obtain ys where ys: "trace ?s2 = trace ?s1 @ ys"
    and p: "potential ?w ?s2 \<le> potential ?w ?s1"
    by (auto simp: advances_def)
  from ys have cs: "calls_since s ?s2 = ys" by (simp add: calls_since_append)
  have "potential ?w ?s1 = length (filter (\<lambda>c. site c = ByOnce ?w) (trace s)) + 1"
    by (simp add: potential_def)
  with p ys have "length (filter (\<lambda>c. site c = ByOnce ?w) ys) \<le> 1"
    by (simp add: potential_def split: if_splits)
  with cs show "length (filter (\<lambda>c. site c = ByOnce ?w) (calls_since s ?s2)) \<le> 1" by simp
next
  show "calls_since
        (snd (invoke E st (OnceWrapper (next_once s) name callback context) t a
               (once name callback context s)))
        (snd (invoke E st' (OnceWrapper (next_once s) name callback context) t' a'
               (snd (invoke E st (OnceWrapper (next_once s) name callback context) t a
                      (once name callback context s)))))
       = [\<lparr>callee = OnceWrapper (next_once s) name callback context, receiver = t',
            arguments = a', site = st'\<rparr>]"
    by (auto simp: calls_since_def record_call_def Let_def split: sum.splits)
next
  let ?s1 = "once name callback context new_bus"
  let ?s2 = "run E (map (\<lambda>(nm, a). Trigger nm a) ts) ?s1"
  have "keeps_sole (OnceWrapper 0 name callback context) 0 callback ?s1 ?s2"
    by (rule keeps_sole_triggers) (rule sole_once_new_bus)
  then obtain ys where ys: "trace ?s2 = trace ?s1 @ ys" "\<forall>c \<in> set ys. foreign 0 callback c"
    by (auto simp: keeps_sole_def)
  have t1: "trace ?s1 = []" by (simp add: new_bus_def)
  have "advances 0 ?s1 ?s2" by (rule advances_run)
  moreover have "calls_left ?s1 0 \<le> 2" "0 < next_once ?s1" by (simp_all add: new_bus_def)
  ultimately have "potential 0 ?s2 \<le> potential 0 ?s1" by (auto simp: advances_def)
  moreover have "potential 0 ?s1 = 1" by (simp add: potential_def new_bus_def)
  ultimately have "length (filter (\<lambda>c. site c = ByOnce 0) (trace ?s2)) \<le> 1"
    by (simp add: potential_def split: if_splits)
  with filter_foreign [OF ys(2)] ys(1) t1
  show "length (filter (\<lambda>c. callee c = Callback callback) (trace ?s2)) \<le> 1" by simp
qed

text \<open>
  The run of the specification's example: \<open>once("x", fn); trigger(["x"], 7);
  trigger(["x"], 8)\<close> on a new bus. The trace holds the wrapper's call by the first
  \<open>trigger\<close> and one call of \<open>fn\<close>; the second \<open>trigger\<close> finds no listener.
\<close>

theorem once_callback_at_most_once_witness:
  "length (filter (\<lambda>c. site c = ByOnce 0)
      (calls_since new_bus
        (run sample_env [Trigger (NameList [str ''x'']) [Num 7], Trigger (NameList [str ''x'']) [Num 8]]
           (once (str ''x'') 1 None new_bus)))) \<le> 1
   \<and> map callee (trace (run sample_env
        [Trigger (NameList [str ''x'']) [Num 7], Trigger (NameList [str ''x'']) [Num 8]]
           (once (str ''x'') 1 None new_bus))) = [OnceWrapper 0 (str ''x'') 1 None, Callback 1]"
  using once_callback_at_most_once [of new_bus sample_env
      "[Trigger (NameList [str ''x'']) [Num 7], Trigger (NameList [str ''x'']) [Num 8]]" "str ''x''" 1 None]
  by (simp add: bus_defs words_x sample_env_def Let_def)

subsection \<open>Delivery by \<open>trigger\<close>\<close>




subsection \<open>\<open>trigger\<close> with a string\<close>

text \<open>
  C10, as stated: given a plain string, \<open>trigger\<close> emits each character as its own event
  name; for a string of length at least 2 the listeners under the whole string are never
  invoked, and for \<open>"ab"\<close> the listeners under \<open>a\<close> and under \<open>b\<close> are each invoked once.
  Three runs where it does not hold. After \<open>once("a b", f); on("b", g)\<close>, the call
  \<open>trigger("ab")\<close> returns and \<open>g\<close>, a listener under \<open>b\<close>, is never invoked: the wrapper
  fires for \<open>a\<close> and empties the list of \<open>b\<close>. After \<open>on("a", L0); on("b", L1)\<close>, where \<open>L0\<close>
  throws, \<open>trigger("ab")\<close> throws and \<open>L1\<close> is not invoked. And for the string of the two
  code units \<open>D83D DE00\<close>, one code point, a listener registered under the whole string
  (with the emitter's \<open>addListener\<close>) is invoked.
\<close>

theorem trigger_string_counterexample:
  "events (on (str ''b'') (Callback 1) [] (once (str ''a b'') 0 None new_bus)) (str ''b'')
     = [OnceWrapper 0 (str ''a b'') 0 None, Callback 1]
   \<and> fst (trigger calm_env (NameString (str ''ab'')) []
          (on (str ''b'') (Callback 1) [] (once (str ''a b'') 0 None new_bus)))
     = Inr BusInstance
   \<and> map callee (trace (snd (trigger calm_env (NameString (str ''ab'')) []
          (on (str ''b'') (Callback 1) [] (once (str ''a b'') 0 None new_bus)))))
     = [OnceWrapper 0 (str ''a b'') 0 None, Callback 0]
   \<and> fst (trigger sample_env (NameString (str ''ab'')) []
          (on (str ''b'') (Callback 1) [] (on (str ''a'') (Callback 0) [] new_bus)))
     = Inl (Error ''boom'')
   \<and> trace (snd (trigger sample_env (NameString (str ''ab'')) []
          (on (str ''b'') (Callback 1) [] (on (str ''a'') (Callback 0) [] new_bus))))
     = [dispatch (str ''a'') [] (Callback 0)]
   \<and> length [0xD83D, 0xDE00 :: nat] = 2
   \<and> trace (snd (trigger calm_env (NameString [0xD83D, 0xDE00]) []
          (addListener [0xD83D, 0xDE00] (Callback 1) [] new_bus)))
     = [dispatch [0xD83D, 0xDE00] [] (Callback 1)]"
  by (simp add: bus_defs words_a words_b words_a_b code_points_ab calm_env_def sample_env_def
      dispatch_def lead_surrogate_def trail_surrogate_def Let_def)

text \<open>
  C10, amended. Given a plain string, \<open>trigger\<close> iterates it code point by code point and
  emits each code point as an event name of its own.
  \<^item> Every call the emitter makes is for an event named by one code point of the string.
  \<^item> A string without lead surrogates is iterated character by character.
  \<^item> For a string of length at least 2 that is not one surrogate pair, no listener is
    invoked for the event named by the whole string.
  \<^item> When the call returns, the calls made by the emitter are those of \<open>delivery_order\<close>
    for the code points.
  \<^item> When the listeners registered under the code points are callbacks registered by \<open>on\<close>
    and the call returns, the calls made are one call of each listener of each code
    point, code point by code point: for \<open>"ab"\<close>, each listener of \<open>a\<close> once, then each
    listener of \<open>b\<close> once.
\<close>

theorem trigger_string_by_code_point:
  "(\<forall>c \<in> set (calls_since s (snd (trigger E (NameString cs) args s))).
      \<forall>n. site c = ByEmit n \<longrightarrow> n \<in> set (code_points cs))
   \<and> ((\<forall>u \<in> set cs. \<not> lead_surrogate u) \<longrightarrow> code_points cs = map (\<lambda>u. [u]) cs)
   \<and> (2 \<le> length cs \<and> \<not> surrogate_pair cs \<longrightarrow>
        (\<forall>c \<in> set (calls_since s (snd (trigger E (NameString cs) args s))).
           site c \<noteq> ByEmit cs))
   \<and> (fst (trigger E (NameString cs) args s) = Inr v \<longrightarrow>
        filter by_emit (calls_since s (snd (trigger E (NameString cs) args s)))
          = delivery_order E (code_points cs) args s)
   \<and> ((\<forall>p \<in> set (code_points cs). \<forall>l \<in> set (events s p). plain l)
        \<and> fst (trigger E (NameString cs) args s) = Inr v \<longrightarrow>
        calls_since s (snd (trigger E (NameString cs) args s))
          = concat (map (\<lambda>p. map (dispatch p args) (events s p)) (code_points cs)))"
proof -
  let ?ns = "code_points cs"
  let ?r = "fst (emit_each E ?ns args s)"
  let ?s' = "snd (emit_each E ?ns args s)"
  let ?calls = "calls_since s ?s'"
  have sn: "snd (trigger E (NameString cs) args s) = ?s'"
    by (auto simp: trigger_def split: prod.splits sum.splits)
  have rt: "fst (trigger E (NameString cs) args s)
      = (case ?r of Inl x \<Rightarrow> Inl x | Inr u \<Rightarrow> Inr BusInstance)"
    by (auto simp: trigger_def split: prod.splits sum.splits)
  from emit_each_sites [of E ?ns args s] obtain ys
    where ys: "trace ?s' = trace s @ ys"
      "\<forall>c \<in> set ys. (\<exists>n \<in> set ?ns. site c = ByEmit n) \<or> once_call c"
    by blast
  from ys(1) have cs: "?calls = ys" by (rule calls_since_append)
  have c1: "\<forall>c \<in> set ?calls. \<forall>n. site c = ByEmit n \<longrightarrow> n \<in> set ?ns"
  proof (intro ballI allI impI)
    fix c n
    assume c: "c \<in> set ?calls" and st: "site c = ByEmit n"
    then have "\<not> once_call c" by (simp add: once_call_def)
    with ys(2) c cs have "\<exists>m \<in> set ?ns. site c = ByEmit m" by auto
    with st show "n \<in> set ?ns" by auto
  qed
  have c2: "(\<forall>u \<in> set cs. \<not> lead_surrogate u) \<longrightarrow> ?ns = map (\<lambda>u. [u]) cs"
    by (simp add: code_points_units)
  have c3: "2 \<le> length cs \<and> \<not> surrogate_pair cs \<longrightarrow> (\<forall>c \<in> set ?calls. site c \<noteq> ByEmit cs)"
  proof (intro impI ballI notI)
    fix c
    assume h: "2 \<le> length cs \<and> \<not> surrogate_pair cs" and c: "c \<in> set ?calls"
      and st: "site c = ByEmit cs"
    with c1 have "cs \<in> set ?ns" by blast
    from code_points_shape [OF this] h show False by auto
  qed
  have c4: "fst (trigger E (NameString cs) args s) = Inr v \<longrightarrow>
      filter by_emit ?calls = delivery_order E ?ns args s"
  proof
    assume "fst (trigger E (NameString cs) args s) = Inr v"
    with rt obtain u where u: "?r = Inr u" by (cases ?r) auto
    from emit_each_delivery [OF u] show "filter by_emit ?calls = delivery_order E ?ns args s"
      by (auto simp: calls_since_append)
  qed
  have c5: "(\<forall>p \<in> set ?ns. \<forall>l \<in> set (events s p). plain l)
        \<and> fst (trigger E (NameString cs) args s) = Inr v \<longrightarrow>
        ?calls = concat (map (\<lambda>p. map (dispatch p args) (events s p)) ?ns)"
  proof
    assume a: "(\<forall>p \<in> set ?ns. \<forall>l \<in> set (events s p). plain l)
        \<and> fst (trigger E (NameString cs) args s) = Inr v"
    with rt obtain u where u: "?r = Inr u" by (cases ?r) auto
    from a have "\<forall>p \<in> set ?ns. \<forall>l \<in> set (events s p). plain l" by simp
    from emit_each_plain [OF this u]
    show "?calls = concat (map (\<lambda>p. map (dispatch p args) (events s p)) ?ns)"
      by (simp add: calls_since_append)
  qed
  from c1 c2 c3 c4 c5 show ?thesis unfolding sn by blast
qed

theorem trigger_string_by_code_point_witness:
  "2 \<le> length (str ''ab'') \<and> \<not> surrogate_pair (str ''ab'')
   \<and> code_points (str ''ab'') = [str ''a'', str ''b'']
   \<and> events (on (str ''b'') (Callback 3) [] (on (str ''a'') (Callback 2) []
        (on (str ''ab'') (Callback 1) [] new_bus))) (str ''ab'') = [Callback 1]
   \<and> fst (trigger calm_env (NameString (str ''ab'')) []
        (on (str ''b'') (Callback 3) [] (on (str ''a'') (Callback 2) []
          (on (str ''ab'') (Callback 1) [] new_bus))))
       = Inr BusInstance
   \<and> calls_since
        (on (str ''b'') (Callback 3) [] (on (str ''a'') (Callback 2) []
          (on (str ''ab'') (Callback 1) [] new_bus)))
        (snd (trigger calm_env (NameString (str ''ab'')) []
           (on (str ''b'') (Callback 3) [] (on (str ''a'') (Callback 2) []
             (on (str ''ab'') (Callback 1) [] new_bus)))))
       = [dispatch (str ''a'') [] (Callback 2), dispatch (str ''b'') [] (Callback 3)]"
  using trigger_string_by_code_point [of
      "on (str ''b'') (Callback 3) [] (on (str ''a'') (Callback 2) []
          (on (str ''ab'') (Callback 1) [] new_bus))"
      calm_env "str ''ab''" "[]" BusInstance]
  by (simp add: bus_defs words_a words_b words_ab code_points_ab not_surrogate_pair_ab
      calm_env_def dispatch_def calls_since_def plain_def)

subsection \<open>The aggregate of \<open>triggerThen\<close>\<close>




text \<open>
  C6. If a listener invoked by \<open>triggerThen\<close> throws or returns an asynchronous result
  that fails, the call still returns its aggregate, and the aggregate is rejected with
  the cause of the first failure: the failure of the collected result at the one
  position \<open>i\<close> such that every other failure has a later tick, or the same tick and a
  later position. A synchronous throw has tick 0, so of two listeners that throw, the
  one invoked first wins.
\<close>

theorem triggerThen_first_failure:
  "(\<exists>e. Inl e \<in> set (outcomes E nameOrNames args s))
   \<or> (\<exists>t e. Inr (Rejecting t e) \<in> set (outcomes E nameOrNames args s)) \<longrightarrow>
     (\<exists>i t e. i < length (outcomes E nameOrNames args s)
        \<and> failure (outcomes E nameOrNames args s ! i) = Some (t, e)
        \<and> (\<forall>j < length (outcomes E nameOrNames args s). \<forall>t' e'.
              failure (outcomes E nameOrNames args s ! j) = Some (t', e') \<longrightarrow>
              t < t' \<or> (t = t' \<and> i \<le> j))
        \<and> fst (triggerThen E nameOrNames args s) = Rejected e)"
proof
  assume "(\<exists>e. Inl e \<in> set (outcomes E nameOrNames args s))
   \<or> (\<exists>t e. Inr (Rejecting t e) \<in> set (outcomes E nameOrNames args s))"
  moreover have "\<not> succeeds (Inl e)" "\<not> succeeds (Inr (Rejecting t e))" for t e
    by (simp_all add: succeeds_def)
  ultimately have "\<exists>r \<in> set (outcomes E nameOrNames args s). \<not> succeeds r"
    by blast
  then have "first_failure (outcomes E nameOrNames args s) \<noteq> None"
    by (simp add: first_failure_None_iff)
  then obtain t e where te: "first_failure (outcomes E nameOrNames args s) = Some (t, e)"
    by (cases "first_failure (outcomes E nameOrNames args s)") auto
  then have "fst (triggerThen E nameOrNames args s) = Rejected e"
    by (simp add: triggerThen_settles settle_def)
  with first_failure_index [OF te]
  show "\<exists>i t e. i < length (outcomes E nameOrNames args s)
        \<and> failure (outcomes E nameOrNames args s ! i) = Some (t, e)
        \<and> (\<forall>j < length (outcomes E nameOrNames args s). \<forall>t' e'.
              failure (outcomes E nameOrNames args s ! j) = Some (t', e') \<longrightarrow>
              t < t' \<or> (t = t' \<and> i \<le> j))
        \<and> fst (triggerThen E nameOrNames args s) = Rejected e"
    by blast
qed


text \<open>
  The listeners, in order: one whose asynchronous result fails at tick 4, one that throws
  \<open>boom\<close>, one that throws \<open>bang\<close>, one that returns 1. The aggregate is rejected with
  \<open>boom\<close>, the earlier of the two throws.
\<close>

theorem triggerThen_first_failure_witness:
  "outcomes sample_env (str ''e'') []
     (on (str ''e'') (Callback 1) [] (on (str ''e'') (Callback 4) []
        (on (str ''e'') (Callback 0) [] (on (str ''e'') (Callback 3) [] new_bus))))
     = [Inr (Rejecting 4 (Error ''late'')), Inl (Error ''boom''), Inl (Error ''bang''), Inr (Num 1)]
   \<and> fst (triggerThen sample_env (str ''e'') []
          (on (str ''e'') (Callback 1) [] (on (str ''e'') (Callback 4) []
             (on (str ''e'') (Callback 0) [] (on (str ''e'') (Callback 3) [] new_bus)))))
     = Rejected (Error ''boom'')"
  using triggerThen_first_failure [of sample_env "str ''e''" "[]"
      "on (str ''e'') (Callback 1) [] (on (str ''e'') (Callback 4) []
        (on (str ''e'') (Callback 0) [] (on (str ''e'') (Callback 3) [] new_bus)))"]
  by (simp add: bus_defs words_e sample_env_def outcomes_def flatMap_def listeners_def
      failure_def triggerThen_settles settle_def)

end
